theory Spec2Isabelle
  imports Complex_Main
begin

section \<open>Sparse weighted adjacency matrices\<close>

text \<open>
  The graphs of \<^verbatim>\<open>rgraph_ws.cpp\<close> are square sparse matrices of doubles
  (\<^verbatim>\<open>arma::sp_mat\<close>). A matrix is modelled by its number of columns (equal to its
  number of rows) and the function giving the weight of each cell; an absent entry has
  weight 0. Weights are real numbers and the additions are exact: this is what the double
  additions of the code give as long as the operands and the sum are integers of magnitude
  at most \<open>2\<^sup>5\<^sup>3\<close>; the weights in the statements below are 0, 1 and 2. The number of
  vertices and the indices fit an \<^verbatim>\<open>int\<close>; the product \<^verbatim>\<open>n*n\<close> of the
  rewiring, which may not, is computed with the wrap-around of 32 bits.
\<close>

datatype error = InvalidParameter

record sp_mat =
  n_cols :: nat
  vals :: "nat \<Rightarrow> nat \<Rightarrow> real"

text \<open>\<^verbatim>\<open>arma::sp_mat graph(n,n)\<close>: the empty matrix.\<close>

definition zeros :: "nat \<Rightarrow> sp_mat" where
  "zeros n = \<lparr>n_cols = n, vals = (\<lambda>r c. 0)\<rparr>"

text \<open>\<^verbatim>\<open>graph.at(r,c) = v\<close> and \<^verbatim>\<open>graph.at(r,c) += w\<close>.\<close>

definition at_set :: "sp_mat \<Rightarrow> nat \<Rightarrow> nat \<Rightarrow> real \<Rightarrow> sp_mat" where
  "at_set graph r c v = graph\<lparr>vals := (vals graph)(r := (vals graph r)(c := v))\<rparr>"

definition at_add :: "sp_mat \<Rightarrow> nat \<Rightarrow> nat \<Rightarrow> real \<Rightarrow> sp_mat" where
  "at_add graph r c w = at_set graph r c (vals graph r c + w)"

text \<open>The sum of all the entries of a matrix, and the properties of its shape.\<close>

definition total :: "sp_mat \<Rightarrow> real" where
  "total graph = (\<Sum>r\<leftarrow>[0..<n_cols graph]. \<Sum>c\<leftarrow>[0..<n_cols graph]. vals graph r c)"

definition symmetric :: "sp_mat \<Rightarrow> bool" where
  "symmetric graph =
     (\<forall>r\<in>set [0..<n_cols graph]. \<forall>c\<in>set [0..<n_cols graph]. vals graph r c = vals graph c r)"

definition zero_diagonal :: "sp_mat \<Rightarrow> bool" where
  "zero_diagonal graph = (\<forall>r\<in>set [0..<n_cols graph]. vals graph r r = 0)"

section \<open>The ring lattice\<close>

text \<open>
  The body of the inner loop of \<^verbatim>\<open>ring_lattice\<close>: vertex \<open>i\<close> is connected to
  its \<open>j\<close>-th next neighbour \<open>l\<close>, and back when the graph is undirected.
\<close>

definition connect :: "nat \<Rightarrow> bool \<Rightarrow> nat \<Rightarrow> nat \<Rightarrow> sp_mat \<Rightarrow> sp_mat" where
  "connect n undirected i j graph =
     (let l = (if i + j \<ge> n then i + j - n else i + j);
          graph1 = at_add graph i l 1
      in if undirected then at_add graph1 l i 1 else graph1)"

text \<open>
  \<^verbatim>\<open>ring_lattice(n, k, undirected)\<close>. \<^verbatim>\<open>floor((double) k/2.0)\<close> is \<open>k div 2\<close>.
  The loops run \<open>i\<close> over \<open>0, ..., n-1\<close> and \<open>j\<close> over \<open>1, ..., k\<close>; they do nothing when
  \<open>n \<le> 0\<close> or \<open>k \<le> 0\<close>. What the constructor of the matrix does with a negative size is
  not modelled: the statements about the graph returned take \<open>n \<ge> 0\<close>.
\<close>

definition ring_lattice :: "int \<Rightarrow> int \<Rightarrow> bool \<Rightarrow> error + sp_mat" where
  "ring_lattice n k undirected =
     (if n - 1 < k then Inl InvalidParameter
      else
        let k' = (if undirected \<and> k > 1 then k div 2 else k)
        in Inr (fold (\<lambda>i. fold (connect (nat n) undirected i) [1..<Suc (nat k')])
                  [0..<nat n] (zeros (nat n))))"

section \<open>The random source\<close>

text \<open>
  \<^verbatim>\<open>unif_rand()\<close> returns a number strictly between 0 and 1. A random source is the
  infinite sequence of the numbers it returns: \<open>rng i\<close> is the result of the call number
  \<open>i\<close>, and the state of the generator is the number of calls made so far.
\<close>

typedef u01 = "{x::real. 0 < x \<and> x < 1}"
  by (rule exI [of _ "1 / 2"]) simp

setup_lifting type_definition_u01

lift_definition quarter_draw :: u01 is "1 / 4"
  by simp

lift_definition tenth_draw :: u01 is "1 / 10"
  by simp

lift_definition half_draw :: u01 is "1 / 2"
  by simp

text \<open>
  \<^verbatim>\<open>floor( (n-1)*unif_rand() )\<close>, stored in an \<^verbatim>\<open>int\<close>. It is evaluated only
  when the graph has an entry, so \<open>n \<ge> 1\<close> there.
\<close>

definition draw_vertex :: "nat \<Rightarrow> u01 \<Rightarrow> nat" where
  "draw_vertex n u = nat \<lfloor>(real n - 1) * Rep_u01 u\<rfloor>"

section \<open>Rewiring\<close>

text \<open>
  Modelled from the spec: \<^verbatim>\<open>sparse_indexes\<close> is declared in
  \<^verbatim>\<open>netdiffuser_extra.h\<close>, which is not among the sources. It enumerates the
  non-zero entries of the graph as (row, column) pairs, once, before any mutation. The
  pairs are listed column by column, the order in which a compressed sparse column matrix
  stores them.
\<close>

definition sparse_indexes :: "sp_mat \<Rightarrow> (nat \<times> nat) list" where
  "sparse_indexes graph =
     concat (map (\<lambda>c. map (\<lambda>r. (r, c)) (filter (\<lambda>r. vals graph r c \<noteq> 0) [0..<n_cols graph]))
               [0..<n_cols graph])"

text \<open>
  The product of two \<^verbatim>\<open>int\<close> values, as the machine computes it: the signed value
  of the low 32 bits of the product.
\<close>

definition int_times :: "int \<Rightarrow> int \<Rightarrow> int" where
  "int_times a b = (a * b + 2147483648) mod 4294967296 - 2147483648"

text \<open>
  The \<^verbatim>\<open>while (conditions)\<close> loop that looks for the new end \<open>newk\<close>. The array
  \<^verbatim>\<open>picked\<close> is the set of the indices it marks. The result is the state of the local
  variables when the loop is left: \<open>newk\<close>, \<open>conditions\<close> (still true when the loop is left
  by \<^verbatim>\<open>break\<close>), \<open>wcount\<close>, and the state of the generator. The counter
  \<open>wcount\<close> starts from 0 and never exceeds the largest \<^verbatim>\<open>int\<close>.
\<close>

function find_newk ::
  "(nat \<Rightarrow> u01) \<Rightarrow> sp_mat \<Rightarrow> bool \<Rightarrow> bool \<Rightarrow> bool \<Rightarrow> nat \<Rightarrow> nat set \<Rightarrow> nat \<Rightarrow> nat
     \<Rightarrow> nat \<times> bool \<times> nat \<times> nat"
where
  "find_newk rng newgraph self multiple undirected newj picked wcount pos =
     (let newk = draw_vertex (n_cols newgraph) (rng pos) in
      if newk \<in> picked then
        (if int (Suc wcount) \<ge> int_times (int (n_cols newgraph)) (int (n_cols newgraph))
         then (newk, True, Suc wcount, Suc pos)
         else find_newk rng newgraph self multiple undirected newj picked (Suc wcount) (Suc pos))
      else if undirected \<and> newj < newk then
        find_newk rng newgraph self multiple undirected newj (insert newk picked) wcount (Suc pos)
      else if \<not> self \<and> newj = newk then
        find_newk rng newgraph self multiple undirected newj (insert newk picked) wcount (Suc pos)
      else if \<not> multiple \<and> vals newgraph newj newk \<noteq> 0 then
        find_newk rng newgraph self multiple undirected newj (insert newk picked) wcount (Suc pos)
      else (newk, False, wcount, Suc pos))"
  by pat_completeness auto
termination
proof -
  have bound: "draw_vertex n u \<le> n - Suc 0" for n u
  proof (cases "n \<le> 1")
    case True
    then have "real n - 1 \<le> 0"
      by simp
    moreover have "0 \<le> Rep_u01 u"
      using Rep_u01 [of u] by simp
    ultimately have "(real n - 1) * Rep_u01 u \<le> 0"
      by (rule mult_nonpos_nonneg)
    then have "\<lfloor>(real n - 1) * Rep_u01 u\<rfloor> \<le> 0"
      by (simp only: floor_le_zero)
    then show ?thesis
      unfolding draw_vertex_def by simp
  next
    case False
    then have "0 < real n - 1"
      by simp
    moreover have "Rep_u01 u < 1"
      using Rep_u01 [of u] by simp
    ultimately have "(real n - 1) * Rep_u01 u < (real n - 1) * 1"
      by (simp only: mult_less_cancel_left_pos)
    then have "(real n - 1) * Rep_u01 u < real_of_int (int n - 1)"
      by simp
    then have "\<lfloor>(real n - 1) * Rep_u01 u\<rfloor> < int n - 1"
      by (simp only: floor_less_iff)
    then show ?thesis
      unfolding draw_vertex_def using False by linarith
  qed
  have fresh: "card ({..n - Suc 0} - insert (draw_vertex n u) picked) < card ({..n - Suc 0} - picked)"
    if "draw_vertex n u \<notin> picked" for n u picked
  proof (rule psubset_card_mono)
    show "finite ({..n - Suc 0} - picked)"
      by simp
    have "draw_vertex n u \<in> {..n - Suc 0} - picked"
      using that bound [of n u] by simp
    then show "{..n - Suc 0} - insert (draw_vertex n u) picked \<subset> {..n - Suc 0} - picked"
      by blast
  qed
  show ?thesis
    by (relation "measures
          [\<lambda>(rng, newgraph, self, multiple, undirected, newj, picked, wcount, pos).
              card ({..n_cols newgraph - Suc 0} - picked),
           \<lambda>(rng, newgraph, self, multiple, undirected, newj, picked, wcount, pos).
              nat (int_times (int (n_cols newgraph)) (int (n_cols newgraph)) - int wcount)]")
       (simp_all add: fresh)
qed

declare find_newk.simps [simp del]

text \<open>
  The statements that move the weight of the entry \<open>(j,k)\<close> to \<open>(newj,newk)\<close>, and of
  its mirror entry when the graph is undirected.
\<close>

definition move_weight :: "bool \<Rightarrow> nat \<Rightarrow> nat \<Rightarrow> nat \<Rightarrow> nat \<Rightarrow> sp_mat \<Rightarrow> sp_mat" where
  "move_weight undirected j k newj newk newgraph =
     (let w = vals newgraph j k;
          graph1 = at_set newgraph j k 0;
          graph2 = (if undirected then at_set graph1 k j 0 else graph1);
          graph3 = at_add graph2 newj newk w
      in if undirected then at_add graph3 newk newj w else graph3)"

text \<open>
  The body of the \<^verbatim>\<open>for\<close> loop of \<^verbatim>\<open>rewire_graph_cpp\<close>, for the entry
  \<open>(j,k)\<close>, on the working copy and the state of the generator. The check for a user
  interrupt is left out.
\<close>

definition rewire_iter ::
  "(nat \<Rightarrow> u01) \<Rightarrow> real \<Rightarrow> bool \<Rightarrow> bool \<Rightarrow> bool \<Rightarrow> bool \<Rightarrow> nat \<times> nat \<Rightarrow> sp_mat \<times> nat
     \<Rightarrow> sp_mat \<times> nat"
where
  "rewire_iter rng p both_ends self multiple undirected e s =
     (case (e, s) of ((j, k), (newgraph, pos)) \<Rightarrow>
        if Rep_u01 (rng pos) > p then (newgraph, Suc pos)
        else if undirected \<and> j < k then (newgraph, Suc pos)
        else
          let newj = (if both_ends then draw_vertex (n_cols newgraph) (rng (Suc pos)) else j);
              pos1 = (if both_ends then Suc (Suc pos) else Suc pos);
              (newk, conditions, wcount, pos2) =
                 find_newk rng newgraph self multiple undirected newj {} 0 pos1
          in (move_weight undirected j k newj newk newgraph, pos2))"

text \<open>
  \<^verbatim>\<open>rewire_graph_cpp\<close>: the loop over the entries of the input graph, from a copy
  of the graph and a fresh generator. \<open>rewire_run\<close> gives the new graph and the number of
  random draws made.
\<close>

definition rewire_run ::
  "sp_mat \<Rightarrow> real \<Rightarrow> bool \<Rightarrow> bool \<Rightarrow> bool \<Rightarrow> bool \<Rightarrow> (nat \<Rightarrow> u01) \<Rightarrow> sp_mat \<times> nat"
where
  "rewire_run graph p both_ends self multiple undirected rng =
     fold (rewire_iter rng p both_ends self multiple undirected) (sparse_indexes graph) (graph, 0)"

definition rewire_graph_cpp ::
  "sp_mat \<Rightarrow> real \<Rightarrow> bool \<Rightarrow> bool \<Rightarrow> bool \<Rightarrow> bool \<Rightarrow> (nat \<Rightarrow> u01) \<Rightarrow> sp_mat"
where
  "rewire_graph_cpp graph p both_ends self multiple undirected rng =
     fst (rewire_run graph p both_ends self multiple undirected rng)"

section \<open>Notions used in the statements\<close>

text \<open>
  The constraints that a fresh candidate \<open>newk\<close> has to satisfy to be accepted: none of
  the three \<^verbatim>\<open>continue\<close> tests that follow the marking of \<open>newk\<close> holds.
\<close>

definition admissible :: "sp_mat \<Rightarrow> bool \<Rightarrow> bool \<Rightarrow> bool \<Rightarrow> nat \<Rightarrow> nat \<Rightarrow> bool" where
  "admissible newgraph self multiple undirected newj newk =
     (\<not> (undirected \<and> newj < newk) \<and> \<not> (\<not> self \<and> newj = newk) \<and>
      \<not> (\<not> multiple \<and> vals newgraph newj newk \<noteq> 0))"

text \<open>
  The draws of a search, from the state \<open>pos\<close> of the generator to the state \<open>pos'\<close>, that
  give a value already tried: a value of \<open>picked\<close> or one drawn before in the search.
\<close>

definition repeated_draws :: "(nat \<Rightarrow> u01) \<Rightarrow> nat \<Rightarrow> nat set \<Rightarrow> nat \<Rightarrow> nat \<Rightarrow> nat list" where
  "repeated_draws rng n picked pos pos' =
     filter (\<lambda>i. draw_vertex n (rng i) \<in> picked \<or>
                 (\<exists>i'\<in>{pos..<i}. draw_vertex n (rng i') = draw_vertex n (rng i)))
       [pos..<pos']"

text \<open>
  What one pass of the inner loop of \<^verbatim>\<open>ring_lattice\<close>, for the vertex \<open>i\<close> and the
  offset \<open>j\<close>, adds to the entry \<open>(r,c)\<close>.
\<close>

definition contribution :: "nat \<Rightarrow> bool \<Rightarrow> nat \<Rightarrow> nat \<Rightarrow> nat \<Rightarrow> nat \<Rightarrow> real" where
  "contribution n undirected i j r c =
     (if r = i \<and> c = (i + j) mod n then 1 else 0) +
     (if undirected \<and> r = (i + j) mod n \<and> c = i then 1 else 0)"

text \<open>
  The vertex \<open>c\<close> is one of the \<open>k\<close> next neighbours of \<open>r\<close> on the ring of \<open>n\<close>
  vertices.
\<close>

definition ahead :: "nat \<Rightarrow> nat \<Rightarrow> nat \<Rightarrow> nat \<Rightarrow> bool" where
  "ahead n k r c = (\<exists>j\<in>{1..k}. c = (r + j) mod n)"

text \<open>
  The number of non-zero entries of a row, the sum of the entries of a row, the number of
  non-zero entries of a matrix, and the bound \<open>k\<close> of the inner loop of
  \<^verbatim>\<open>ring_lattice\<close> after its adjustment.
\<close>

definition out_degree :: "sp_mat \<Rightarrow> nat \<Rightarrow> nat" where
  "out_degree graph r = length (filter (\<lambda>c. vals graph r c \<noteq> 0) [0..<n_cols graph])"

definition row_total :: "sp_mat \<Rightarrow> nat \<Rightarrow> real" where
  "row_total graph r = (\<Sum>c\<leftarrow>[0..<n_cols graph]. vals graph r c)"

definition non_zero_entries :: "sp_mat \<Rightarrow> nat" where
  "non_zero_entries graph = (\<Sum>r\<leftarrow>[0..<n_cols graph]. out_degree graph r)"

definition half_degree :: "int \<Rightarrow> bool \<Rightarrow> nat" where
  "half_degree k undirected = nat (if undirected \<and> k > 1 then k div 2 else k)"


text \<open>
  Inputs for the examples: the graph on \<open>n\<close> vertices whose only entry is \<open>(r,c)\<close>, of
  weight 1, the undirected ring lattice on 14 vertices with \<open>k = 2\<close>, and the random
  sources that always return 1/10, 1/4 and 1/2.
\<close>

definition single_edge :: "nat \<Rightarrow> nat \<Rightarrow> nat \<Rightarrow> sp_mat" where
  "single_edge n r c = at_set (zeros n) r c 1"

definition lattice14 :: sp_mat where
  "lattice14 = (case ring_lattice 14 2 True of Inr graph \<Rightarrow> graph | Inl e \<Rightarrow> zeros 0)"

definition tenth_rng :: "nat \<Rightarrow> u01" where
  "tenth_rng i = tenth_draw"

definition quarter_rng :: "nat \<Rightarrow> u01" where
  "quarter_rng i = quarter_draw"

definition half_rng :: "nat \<Rightarrow> u01" where
  "half_rng i = half_draw"

section \<open>Updates of a matrix\<close>

lemma n_cols_at_set [simp]: "n_cols (at_set graph r c v) = n_cols graph"
  by (simp add: at_set_def)

lemma vals_at_set:
  "vals (at_set graph r c v) r' c' = (if r' = r \<and> c' = c then v else vals graph r' c')"
  by (simp add: at_set_def)

lemma n_cols_at_add [simp]: "n_cols (at_add graph r c w) = n_cols graph"
  by (simp add: at_add_def)

lemma vals_at_add:
  "vals (at_add graph r c w) r' c' =
     (if r' = r \<and> c' = c then vals graph r c + w else vals graph r' c')"
  by (simp add: at_add_def vals_at_set)

lemma n_cols_move_weight [simp]:
  "n_cols (move_weight undirected j k newj newk graph) = n_cols graph"
  by (simp add: move_weight_def Let_def)

lemma vals_at_add_pair:
  "vals (at_add (at_add graph j k w) k j w) r c =
     vals graph r c + (if r = j \<and> c = k then w else 0) + (if r = k \<and> c = j then w else 0)"
proof (cases "j = k")
  case True
  then show ?thesis
    by (simp add: vals_at_add)
next
  case False
  then show ?thesis
    by (simp add: vals_at_add)
qed

section \<open>The search for a new end\<close>

lemma u01_range: "0 < Rep_u01 u" "Rep_u01 u < 1"
  using Rep_u01 [of u] by simp_all

lemma draw_vertex_less:
  assumes "2 \<le> n"
  shows "draw_vertex n u < n - 1"
proof -
  have "0 < real n - 1"
    using assms by simp
  then have "(real n - 1) * Rep_u01 u < (real n - 1) * 1"
    using u01_range(2) [of u] by (simp only: mult_less_cancel_left_pos)
  then have "(real n - 1) * Rep_u01 u < real_of_int (int n - 1)"
    by simp
  then have "\<lfloor>(real n - 1) * Rep_u01 u\<rfloor> < int n - 1"
    by (simp only: floor_less_iff)
  then show ?thesis
    unfolding draw_vertex_def using assms by linarith
qed

lemma draw_vertex_one [simp]: "draw_vertex (Suc 0) u = 0"
  by (simp add: draw_vertex_def)

lemma draw_vertex_in_range:
  assumes "1 \<le> n"
  shows "draw_vertex n u < n"
proof (cases "n = 1")
  case True
  then show ?thesis by simp
next
  case False
  then have "2 \<le> n" using assms by simp
  then show ?thesis using draw_vertex_less [of n u] by simp
qed

lemma find_newk_last_draw:
  "find_newk rng newgraph self multiple undirected newj picked wcount pos = (newk, conditions, wcount', pos')
   \<Longrightarrow> pos < pos' \<and> newk = draw_vertex (n_cols newgraph) (rng (pos' - 1))"
proof (induction rng newgraph self multiple undirected newj picked wcount pos rule: find_newk.induct)
  case (1 rng newgraph self multiple undirected newj picked wcount pos)
  show ?case
    using "1.prems" "1.IH"
    by (subst (asm) find_newk.simps) (auto simp: Let_def split: if_splits dest: Suc_lessD)
qed

lemma find_newk_accepted:
  "find_newk rng newgraph self multiple undirected newj picked wcount pos = (newk, False, wcount', pos')
   \<Longrightarrow> admissible newgraph self multiple undirected newj newk \<and> newk \<notin> picked"
proof (induction rng newgraph self multiple undirected newj picked wcount pos rule: find_newk.induct)
  case (1 rng newgraph self multiple undirected newj picked wcount pos)
  show ?case
    using "1.prems" "1.IH"
    by (subst (asm) find_newk.simps) (auto simp: Let_def admissible_def split: if_splits)
qed


lemma find_newk_rejected:
  "find_newk rng newgraph self multiple undirected newj picked wcount pos = (newk, conditions, wcount', pos')
   \<Longrightarrow> pos \<le> i \<Longrightarrow> i < pos' - 1
   \<Longrightarrow> draw_vertex (n_cols newgraph) (rng i) \<in> picked \<or>
       \<not> admissible newgraph self multiple undirected newj (draw_vertex (n_cols newgraph) (rng i))"
proof (induction rng newgraph self multiple undirected newj picked wcount pos rule: find_newk.induct)
  case (1 rng newgraph self multiple undirected newj picked wcount pos)
  let ?d = "draw_vertex (n_cols newgraph) (rng pos)"
  show ?case
  proof (cases "i = pos")
    case True
    have "?d \<in> picked \<or> \<not> admissible newgraph self multiple undirected newj ?d"
      using "1.prems"(1) "1.prems"(3) True
      by (subst (asm) find_newk.simps) (auto simp: Let_def admissible_def split: if_splits)
    then show ?thesis
      using True by simp
  next
    case False
    then have i: "Suc pos \<le> i"
      using "1.prems"(2) by simp
    show ?thesis
      using "1.prems"(1) "1.IH" i "1.prems"(3)
      by (subst (asm) find_newk.simps) (auto simp: Let_def admissible_def split: if_splits)
  qed
qed

lemma find_newk_abandoned:
  "find_newk rng newgraph self multiple undirected newj picked wcount pos = (newk, True, wcount', pos')
   \<Longrightarrow> newk \<in> picked \<or> \<not> admissible newgraph self multiple undirected newj newk"
proof (induction rng newgraph self multiple undirected newj picked wcount pos rule: find_newk.induct)
  case (1 rng newgraph self multiple undirected newj picked wcount pos)
  show ?case
    using "1.prems" "1.IH"
    by (subst (asm) find_newk.simps) (auto simp: Let_def admissible_def split: if_splits)
qed

lemma find_newk_wcount:
  "find_newk rng newgraph self multiple undirected newj picked wcount pos = (newk, conditions, wcount', pos')
   \<Longrightarrow> (if conditions
        then int wcount' = max (int (Suc wcount)) (int_times (int (n_cols newgraph)) (int (n_cols newgraph)))
        else wcount \<le> wcount' \<and>
             int wcount' < max (int (Suc wcount)) (int_times (int (n_cols newgraph)) (int (n_cols newgraph))))"
proof (induction rng newgraph self multiple undirected newj picked wcount pos rule: find_newk.induct)
  case (1 rng newgraph self multiple undirected newj picked wcount pos)
  show ?case
    using "1.prems" "1.IH"
    by (subst (asm) find_newk.simps) (auto simp: Let_def split: if_splits)
qed


lemma draw_vertex_le: "draw_vertex n u \<le> n - Suc 0"
proof (cases "n = 0")
  case True
  have "0 \<le> Rep_u01 u"
    using u01_range(1) [of u] by simp
  then have "(real n - 1) * Rep_u01 u \<le> 0"
    using True by simp
  then have "\<lfloor>(real n - 1) * Rep_u01 u\<rfloor> \<le> 0"
    by (simp only: floor_le_zero)
  then show ?thesis
    unfolding draw_vertex_def by simp
next
  case False
  then show ?thesis
    using draw_vertex_in_range [of n u] by simp
qed

lemma card_unpicked_fresh:
  assumes "draw_vertex n u \<notin> picked"
  shows "card ({..n - Suc 0} - insert (draw_vertex n u) picked) < card ({..n - Suc 0} - picked)"
proof (rule psubset_card_mono)
  show "finite ({..n - Suc 0} - picked)"
    by simp
  have "draw_vertex n u \<in> {..n - Suc 0} - picked"
    using assms draw_vertex_le [of n u] by simp
  then show "{..n - Suc 0} - insert (draw_vertex n u) picked \<subset> {..n - Suc 0} - picked"
    by blast
qed

lemma find_newk_draws:
  "find_newk rng newgraph self multiple undirected newj picked wcount pos = (newk, conditions, wcount', pos')
   \<Longrightarrow> pos' + wcount \<le> pos + card ({..n_cols newgraph - Suc 0} - picked) + wcount'"
proof (induction rng newgraph self multiple undirected newj picked wcount pos rule: find_newk.induct)
  case (1 rng newgraph self multiple undirected newj picked wcount pos)
  let ?d = "draw_vertex (n_cols newgraph) (rng pos)"
  show ?case
  proof (cases "?d \<in> picked")
    case True
    then show ?thesis
      using "1.prems" "1.IH"(1)
      by (subst (asm) find_newk.simps) (auto simp: Let_def split: if_splits)
  next
    case False
    note fresh = card_unpicked_fresh [OF False]
    show ?thesis
      using "1.prems" "1.IH"(2-) False fresh
      by (subst (asm) find_newk.simps) (auto simp: Let_def split: if_splits)
  qed
qed

lemma repeated_draws_repeat:
  assumes "pos < pos'" and "draw_vertex n (rng pos) \<in> picked"
  shows "repeated_draws rng n picked pos pos' = pos # repeated_draws rng n picked (Suc pos) pos'"
proof -
  have "filter (\<lambda>i. draw_vertex n (rng i) \<in> picked \<or>
                 (\<exists>i'\<in>{pos..<i}. draw_vertex n (rng i') = draw_vertex n (rng i))) [Suc pos..<pos']
      = filter (\<lambda>i. draw_vertex n (rng i) \<in> picked \<or>
                 (\<exists>i'\<in>{Suc pos..<i}. draw_vertex n (rng i') = draw_vertex n (rng i))) [Suc pos..<pos']"
  proof (rule filter_cong [OF refl])
    fix i assume "i \<in> set [Suc pos..<pos']"
    have "{pos..<i} = insert pos {Suc pos..<i}" if "pos < i"
      using that by auto
    then show "(draw_vertex n (rng i) \<in> picked \<or>
                 (\<exists>i'\<in>{pos..<i}. draw_vertex n (rng i') = draw_vertex n (rng i))) =
               (draw_vertex n (rng i) \<in> picked \<or>
                 (\<exists>i'\<in>{Suc pos..<i}. draw_vertex n (rng i') = draw_vertex n (rng i)))"
      using \<open>i \<in> set [Suc pos..<pos']\<close> assms(2) by auto
  qed
  then show ?thesis
    using assms by (simp add: repeated_draws_def upt_conv_Cons)
qed

lemma repeated_draws_fresh:
  assumes "pos < pos'" and "draw_vertex n (rng pos) \<notin> picked"
  shows "repeated_draws rng n picked pos pos' =
         repeated_draws rng n (insert (draw_vertex n (rng pos)) picked) (Suc pos) pos'"
proof -
  have "filter (\<lambda>i. draw_vertex n (rng i) \<in> picked \<or>
                 (\<exists>i'\<in>{pos..<i}. draw_vertex n (rng i') = draw_vertex n (rng i))) [Suc pos..<pos']
      = filter (\<lambda>i. draw_vertex n (rng i) \<in> insert (draw_vertex n (rng pos)) picked \<or>
                 (\<exists>i'\<in>{Suc pos..<i}. draw_vertex n (rng i') = draw_vertex n (rng i))) [Suc pos..<pos']"
  proof (rule filter_cong [OF refl])
    fix i assume "i \<in> set [Suc pos..<pos']"
    have "{pos..<i} = insert pos {Suc pos..<i}" if "pos < i"
      using that by auto
    then show "(draw_vertex n (rng i) \<in> picked \<or>
                 (\<exists>i'\<in>{pos..<i}. draw_vertex n (rng i') = draw_vertex n (rng i))) =
               (draw_vertex n (rng i) \<in> insert (draw_vertex n (rng pos)) picked \<or>
                 (\<exists>i'\<in>{Suc pos..<i}. draw_vertex n (rng i') = draw_vertex n (rng i)))"
      using \<open>i \<in> set [Suc pos..<pos']\<close> by auto
  qed
  then show ?thesis
    using assms by (simp add: repeated_draws_def upt_conv_Cons)
qed

lemma find_newk_counts_repeats:
  "find_newk rng newgraph self multiple undirected newj picked wcount pos = (newk, conditions, wcount', pos')
   \<Longrightarrow> wcount' = wcount + length (repeated_draws rng (n_cols newgraph) picked pos pos')"
proof (induction rng newgraph self multiple undirected newj picked wcount pos rule: find_newk.induct)
  case (1 rng newgraph self multiple undirected newj picked wcount pos)
  let ?d = "draw_vertex (n_cols newgraph) (rng pos)"
  have lt: "pos < pos'"
    using find_newk_last_draw [OF "1.prems"] by simp
  show ?case
  proof (cases "?d \<in> picked")
    case True
    note rep = repeated_draws_repeat [of pos pos' "n_cols newgraph" rng picked, OF lt True]
    show ?thesis
    proof (cases "int (Suc wcount) \<ge> int_times (int (n_cols newgraph)) (int (n_cols newgraph))")
      case stop: True
      then have "pos' = Suc pos" "wcount' = Suc wcount"
        using "1.prems" True by (subst (asm) find_newk.simps; simp add: Let_def)+
      then show ?thesis
        using rep by (simp add: repeated_draws_def)
    next
      case False
      then have "find_newk rng newgraph self multiple undirected newj picked (Suc wcount) (Suc pos) =
          (newk, conditions, wcount', pos')"
        using "1.prems" True by (subst (asm) find_newk.simps) (simp add: Let_def)
      then have "wcount' = Suc wcount + length (repeated_draws rng (n_cols newgraph) picked (Suc pos) pos')"
        using "1.IH"(1) True False by simp
      then show ?thesis
        using rep by simp
    qed
  next
    case False
    note fr = repeated_draws_fresh [of pos pos' "n_cols newgraph" rng picked, OF lt False]
    show ?thesis
      using "1.prems" "1.IH"(2-) False fr
      by (subst (asm) find_newk.simps) (auto simp: Let_def repeated_draws_def split: if_splits)
  qed
qed

lemma int_times_small:
  assumes "n \<le> 46340"
  shows "int_times (int n) (int n) = int (n * n)"
proof -
  have "n * n \<le> 46340 * 46340"
    by (rule mult_le_mono) (rule assms)+
  then have "n * n < 2147483648"
    by simp
  then have "int (n * n) < int 2147483648"
    by (simp only: of_nat_less_iff)
  then have "int (n * n) < 2147483648"
    by simp
  moreover have "0 \<le> int (n * n)"
    by simp
  ultimately have "(int (n * n) + 2147483648) mod 4294967296 = int (n * n) + 2147483648"
    by (intro mod_pos_pos_trivial) simp_all
  then show ?thesis
    by (simp add: int_times_def)
qed

text \<open>
  The search of an edge chosen for rewiring, on a graph with at least one vertex: it ends,
  after at most \<open>n\<close> fresh draws and as many repeats as the limit allows; its result is the
  last value drawn; no value drawn before is admissible; \<open>wcount\<close> counts the draws that
  gave a value already tried; the search ends with the first admissible value, or with
  \<open>conditions\<close> still true, a value that is not admissible and the counter at the limit,
  which is the \<^verbatim>\<open>int\<close> product \<^verbatim>\<open>n*n\<close>, or 1 when the product is smaller.
  The product is \<open>n\<^sup>2\<close> as long as \<open>n \<le> 46340\<close>.
\<close>

lemma find_newk_search:
  assumes "1 \<le> n_cols newgraph"
    and "find_newk rng newgraph self multiple undirected newj {} 0 pos = (newk, conditions, wcount, pos')"
  shows "pos < pos' \<and>
         pos' \<le> pos + n_cols newgraph +
                  nat (max 1 (int_times (int (n_cols newgraph)) (int (n_cols newgraph)))) \<and>
         newk = draw_vertex (n_cols newgraph) (rng (pos' - 1)) \<and>
         (\<forall>i. pos \<le> i \<and> i < pos' - 1 \<longrightarrow>
            \<not> admissible newgraph self multiple undirected newj (draw_vertex (n_cols newgraph) (rng i))) \<and>
         wcount = length (repeated_draws rng (n_cols newgraph) {} pos pos') \<and>
         (if conditions
          then int wcount = max 1 (int_times (int (n_cols newgraph)) (int (n_cols newgraph))) \<and>
               \<not> admissible newgraph self multiple undirected newj newk
          else admissible newgraph self multiple undirected newj newk) \<and>
         (n_cols newgraph \<le> 46340 \<longrightarrow>
            int_times (int (n_cols newgraph)) (int (n_cols newgraph)) =
              int (n_cols newgraph * n_cols newgraph))"
proof -
  let ?n = "n_cols newgraph"
  let ?L = "int_times (int ?n) (int ?n)"
  note search = assms(2)
  have last: "pos < pos'" "newk = draw_vertex ?n (rng (pos' - 1))"
    using find_newk_last_draw [OF search] by simp_all
  have wc: "if conditions then int wcount = max 1 ?L else int wcount < max 1 ?L"
    using find_newk_wcount [OF search] by (simp split: if_splits)
  have "card ({..?n - Suc 0} - {}) = ?n"
    using assms(1) by simp
  then have "pos' \<le> pos + ?n + wcount"
    using find_newk_draws [OF search] by simp
  moreover have "wcount \<le> nat (max 1 ?L)"
    using wc by (simp split: if_splits)
  ultimately have bound: "pos' \<le> pos + ?n + nat (max 1 ?L)"
    by simp
  have rejected: "\<forall>i. pos \<le> i \<and> i < pos' - 1 \<longrightarrow>
      \<not> admissible newgraph self multiple undirected newj (draw_vertex ?n (rng i))"
    using find_newk_rejected [OF search] by simp
  have repeats: "wcount = length (repeated_draws rng ?n {} pos pos')"
    using find_newk_counts_repeats [OF search] by simp
  have outcome: "if conditions
          then int wcount = max 1 ?L \<and> \<not> admissible newgraph self multiple undirected newj newk
          else admissible newgraph self multiple undirected newj newk"
  proof (cases conditions)
    case True
    then show ?thesis
      using wc find_newk_abandoned [of rng newgraph self multiple undirected newj "{}" 0 pos newk wcount pos']
        search by simp
  next
    case False
    then show ?thesis
      using find_newk_accepted [of rng newgraph self multiple undirected newj "{}" 0 pos newk wcount pos']
        search by simp
  qed
  show ?thesis
    using last bound rejected repeats outcome int_times_small [of ?n] by blast
qed

section \<open>The loop over the entries\<close>

lemma rewire_iter_kept:
  assumes "Rep_u01 (rng pos) > p \<or> (undirected \<and> j < k)"
  shows "rewire_iter rng p both_ends self multiple undirected (j, k) (newgraph, pos) = (newgraph, Suc pos)"
  using assms by (auto simp add: rewire_iter_def)

lemma rewire_iter_moved:
  assumes "\<not> Rep_u01 (rng pos) > p" and "\<not> (undirected \<and> j < k)"
    and "newj = (if both_ends then draw_vertex (n_cols newgraph) (rng (Suc pos)) else j)"
    and "find_newk rng newgraph self multiple undirected newj {} 0
           (if both_ends then Suc (Suc pos) else Suc pos) = (newk, conditions, wcount, pos')"
  shows "rewire_iter rng p both_ends self multiple undirected (j, k) (newgraph, pos) =
           (move_weight undirected j k newj newk newgraph, pos')"
  using assms by (auto simp add: rewire_iter_def Let_def)

lemma fold_rewire_never:
  assumes "\<And>i. p < Rep_u01 (rng i)"
  shows "fold (rewire_iter rng p both_ends self multiple undirected) es (graph, pos) =
           (graph, pos + length es)"
proof (induction es arbitrary: pos)
  case Nil
  then show ?case by simp
next
  case (Cons e es)
  obtain j k where e: "e = (j, k)"
    by (cases e)
  have "rewire_iter rng p both_ends self multiple undirected e (graph, pos) = (graph, Suc pos)"
    unfolding e using assms by (intro rewire_iter_kept) simp
  then show ?case
    using Cons.IH [of "Suc pos"] by simp
qed

lemma fold_rewire_skipped:
  assumes "\<forall>(j, k)\<in>set es. j < k"
  shows "fold (rewire_iter rng p both_ends self multiple True) es (graph, pos) =
           (graph, pos + length es)"
  using assms
proof (induction es arbitrary: pos)
  case Nil
  then show ?case by simp
next
  case (Cons e es)
  obtain j k where e: "e = (j, k)"
    by (cases e)
  have "rewire_iter rng p both_ends self multiple True e (graph, pos) = (graph, Suc pos)"
    unfolding e using Cons.prems e by (intro rewire_iter_kept) simp
  then show ?case
    using Cons.IH [of "Suc pos"] Cons.prems by simp
qed

section \<open>The entries of the ring lattice\<close>

lemma wrap_mod:
  assumes "i < n" and "j < n"
  shows "(if i + j \<ge> n then i + j - n else i + j) = (i + j) mod (n::nat)"
proof (cases "i + j \<ge> n")
  case True
  then have "(i + j) mod n = (i + j - n) mod n"
    by (simp add: le_mod_geq)
  also have "\<dots> = i + j - n"
    using assms by simp
  finally show ?thesis
    using True by simp
next
  case False
  then show ?thesis by simp
qed

lemma vals_connect:
  assumes "i < n" and "j < n"
  shows "vals (connect n undirected i j graph) r c = vals graph r c + contribution n undirected i j r c"
proof -
  let ?l = "(i + j) mod n"
  have l: "(if i + j \<ge> n then i + j - n else i + j) = ?l"
    using assms by (rule wrap_mod)
  show ?thesis
  proof (cases undirected)
    case True
    then have "connect n undirected i j graph = at_add (at_add graph i ?l 1) ?l i 1"
      by (simp only: connect_def l Let_def if_True)
    then show ?thesis
      using True by (simp only: vals_at_add_pair contribution_def) simp
  next
    case False
    then have "connect n undirected i j graph = at_add graph i ?l 1"
      by (simp only: connect_def l Let_def if_False)
    then show ?thesis
      using False by (simp add: vals_at_add contribution_def)
  qed
qed

lemma n_cols_connect [simp]: "n_cols (connect n undirected i j graph) = n_cols graph"
  by (simp add: connect_def Let_def)

lemma n_cols_fold_connect [simp]:
  "n_cols (fold (connect n undirected i) js graph) = n_cols graph"
  by (induction js arbitrary: graph) simp_all

lemma n_cols_fold_fold_connect [simp]:
  "n_cols (fold (\<lambda>i. fold (connect n undirected i) js) is graph) = n_cols graph"
  by (induction "is" arbitrary: graph) simp_all

lemma vals_fold_connect:
  assumes "i < n" and "\<forall>j\<in>set js. j < n"
  shows "vals (fold (connect n undirected i) js graph) r c =
           vals graph r c + (\<Sum>j\<leftarrow>js. contribution n undirected i j r c)"
  using assms(2)
proof (induction js arbitrary: graph)
  case Nil
  then show ?case by simp
next
  case (Cons j js)
  then have "j < n"
    by simp
  then show ?case
    using Cons by (simp add: vals_connect [OF assms(1)])
qed

lemma vals_fold_fold_connect:
  assumes "\<forall>i\<in>set is. i < n" and "\<forall>j\<in>set js. j < n"
  shows "vals (fold (\<lambda>i. fold (connect n undirected i) js) is graph) r c =
           vals graph r c + (\<Sum>i\<leftarrow>is. \<Sum>j\<leftarrow>js. contribution n undirected i j r c)"
  using assms(1)
proof (induction "is" arbitrary: graph)
  case Nil
  then show ?case by simp
next
  case (Cons i "is")
  then have "i < n"
    by simp
  then show ?case
    using Cons by (simp add: vals_fold_connect [OF _ assms(2)])
qed


lemma add_mod_inj:
  fixes n :: nat
  assumes "x < n" and "y < n" and "(a + x) mod n = (a + y) mod n"
  shows "x = y"
proof -
  have aux: "x' = y'" if "x' \<le> y'" "y' < n" "(a + x') mod n = (a + y') mod n" for x' y'
  proof -
    have "a + x' \<le> a + y'" "(a + y') mod n = (a + x') mod n"
      using that(1,3) by simp_all
    then have "n dvd (a + y') - (a + x')"
      by (simp only: mod_eq_dvd_iff_nat)
    then have "n dvd y' - x'"
      by simp
    moreover have "y' - x' < n"
      using that(2) by simp
    ultimately have "y' - x' = 0"
      by (meson dvd_imp_le not_less zero_less_iff_neq_zero)
    then show ?thesis
      using that(1) by simp
  qed
  show ?thesis
  proof (cases "x \<le> y")
    case True
    then show ?thesis
      using aux [of x y] assms by simp
  next
    case False
    then show ?thesis
      using aux [of y x] assms by simp
  qed
qed

lemma sum_ahead:
  assumes "k < n"
  shows "(\<Sum>j\<in>{1..k}. if c = (r + j) mod n then 1 else 0) = (if ahead n k r c then 1 else (0::real))"
proof (cases "ahead n k r c")
  case True
  then obtain j0 where j0: "j0 \<in> {1..k}" "c = (r + j0) mod n"
    by (auto simp add: ahead_def)
  have "(if c = (r + j) mod n then 1 else 0) = (if j = j0 then 1 else (0::real))" if "j \<in> {1..k}" for j
  proof -
    have "j = j0" if "c = (r + j) mod n"
      using add_mod_inj [of j n j0 r] that j0 \<open>j \<in> {1..k}\<close> assms by simp
    then show ?thesis
      using j0(2) by auto
  qed
  then have "(\<Sum>j\<in>{1..k}. if c = (r + j) mod n then 1 else 0) = (\<Sum>j\<in>{1..k}. if j = j0 then 1 else (0::real))"
    by (intro sum.cong) simp_all
  also have "\<dots> = 1"
    using j0(1) by simp
  finally show ?thesis
    using True by simp
next
  case False
  then have "(if c = (r + j) mod n then 1 else (0::real)) = 0" if "j \<in> {1..k}" for j
    using that by (auto simp add: ahead_def)
  then have "(\<Sum>j\<in>{1..k}. if c = (r + j) mod n then 1 else (0::real)) = 0"
    by (intro sum.neutral) simp
  then show ?thesis
    using False by simp
qed

lemma sum_contribution:
  assumes "k < n" and "r < n" and "c < n"
  shows "(\<Sum>i\<leftarrow>[0..<n]. \<Sum>j\<leftarrow>[1..<Suc k]. contribution n undirected i j r c) =
           (if ahead n k r c then 1 else 0) + (if undirected \<and> ahead n k c r then 1 else 0)"
proof -
  have "(\<Sum>i\<leftarrow>[0..<n]. \<Sum>j\<leftarrow>[1..<Suc k]. contribution n undirected i j r c) =
          (\<Sum>i<n. \<Sum>j\<in>{1..k}. contribution n undirected i j r c)"
    by (simp only: interv_sum_list_conv_sum_set_nat set_upt atLeast0LessThan
          atLeastLessThanSuc_atLeastAtMost)
  also have "\<dots> = (\<Sum>j\<in>{1..k}. \<Sum>i<n. contribution n undirected i j r c)"
    by (rule sum.swap)
  also have "\<dots> = (\<Sum>j\<in>{1..k}. (if c = (r + j) mod n then 1 else 0) +
                      (if undirected \<and> r = (c + j) mod n then 1 else 0))"
  proof (rule sum.cong [OF refl])
    fix j
    have "(\<Sum>i<n. contribution n undirected i j r c) =
            (\<Sum>i<n. if i = r then (if c = (r + j) mod n then 1 else 0) else 0) +
            (\<Sum>i<n. if i = c then (if undirected \<and> r = (c + j) mod n then 1 else 0) else 0)"
      unfolding contribution_def sum.distrib [symmetric]
      by (intro sum.cong) auto
    also have "\<dots> = (if c = (r + j) mod n then 1 else 0) +
                      (if undirected \<and> r = (c + j) mod n then 1 else 0)"
      using assms(2,3) by (simp only: sum.delta finite_lessThan lessThan_iff if_True)
    finally show "(\<Sum>i<n. contribution n undirected i j r c) =
        (if c = (r + j) mod n then 1 else 0) + (if undirected \<and> r = (c + j) mod n then 1 else 0)" .
  qed
  also have "\<dots> = (\<Sum>j\<in>{1..k}. if c = (r + j) mod n then 1 else 0) +
                    (\<Sum>j\<in>{1..k}. if undirected \<and> r = (c + j) mod n then 1 else 0)"
    by (rule sum.distrib)
  also have "(\<Sum>j\<in>{1..k}. if undirected \<and> r = (c + j) mod n then 1 else (0::real)) =
               (if undirected \<and> ahead n k c r then 1 else 0)"
  proof (cases undirected)
    case True
    then show ?thesis
      using sum_ahead [OF assms(1), of r c] by simp
  next
    case False
    then show ?thesis by simp
  qed
  finally show ?thesis
    using sum_ahead [OF assms(1), of c r] by simp
qed


lemma half_degree_less:
  assumes "k \<le> n - 1" and "0 < nat n"
  shows "half_degree k undirected < nat n"
proof -
  have "k div 2 \<le> k" if "1 < k"
    using that by presburger
  then have "(if undirected \<and> k > 1 then k div 2 else k) \<le> k"
    by simp
  then show ?thesis
    using assms unfolding half_degree_def by linarith
qed

lemma ring_lattice_vals:
  assumes "k \<le> n - 1"
  shows "\<exists>graph. ring_lattice n k undirected = Inr graph \<and> n_cols graph = nat n \<and>
           (\<forall>r<nat n. \<forall>c<nat n. vals graph r c =
              (if ahead (nat n) (half_degree k undirected) r c then 1 else 0) +
              (if undirected \<and> ahead (nat n) (half_degree k undirected) c r then 1 else 0))"
proof -
  let ?h = "half_degree k undirected"
  let ?g = "fold (\<lambda>i. fold (connect (nat n) undirected i) [1..<Suc ?h]) [0..<nat n] (zeros (nat n))"
  have eq: "ring_lattice n k undirected = Inr ?g"
    using assms by (simp add: ring_lattice_def half_degree_def Let_def)
  have "vals ?g r c = (if ahead (nat n) ?h r c then 1 else 0) +
                      (if undirected \<and> ahead (nat n) ?h c r then 1 else 0)"
    if "r < nat n" "c < nat n" for r c
  proof -
    have h: "?h < nat n"
      using assms that(1) by (intro half_degree_less) simp_all
    have "vals ?g r c = vals (zeros (nat n)) r c +
        (\<Sum>i\<leftarrow>[0..<nat n]. \<Sum>j\<leftarrow>[1..<Suc ?h]. contribution (nat n) undirected i j r c)"
      using h by (intro vals_fold_fold_connect) auto
    then show ?thesis
      using sum_contribution [OF h that] by (simp add: zeros_def)
  qed
  moreover have "n_cols ?g = nat n"
    by (simp add: zeros_def)
  ultimately show ?thesis
    using eq by blast
qed

lemma not_ahead_self:
  assumes "k < n"
  shows "\<not> ahead n k r r"
proof
  assume "ahead n k r r"
  then obtain j where j: "1 \<le> j" "j \<le> k" "r = (r + j) mod n"
    by (auto simp add: ahead_def)
  have "r < n"
    using j(3) assms by (metis less_nat_zero_code mod_less_divisor neq0_conv)
  then have "(r + 0) mod n = (r + j) mod n"
    using j(3) by simp
  then have "0 = j"
    using assms j(2) by (intro add_mod_inj [of 0 n j r]) simp_all
  then show False
    using j(1) by simp
qed

lemma not_ahead_both:
  assumes "k + k < n"
  shows "\<not> (ahead n k r c \<and> ahead n k c r)"
proof
  assume "ahead n k r c \<and> ahead n k c r"
  then obtain j j' where j: "1 \<le> j" "j \<le> k" "c = (r + j) mod n"
    and j': "1 \<le> j'" "j' \<le> k" "r = (c + j') mod n"
    by (auto simp add: ahead_def)
  have "r < n"
    using j'(3) assms by (metis less_nat_zero_code mod_less_divisor neq0_conv)
  have "r = ((r + j) mod n + j') mod n"
    using j(3) j'(3) by simp
  also have "\<dots> = (r + (j + j')) mod n"
    by (simp add: mod_add_left_eq add.assoc)
  finally have "(r + 0) mod n = (r + (j + j')) mod n"
    using \<open>r < n\<close> by simp
  then have "0 = j + j'"
    using assms j(2) j'(2) by (intro add_mod_inj [of 0 n "j + j'" r]) simp_all
  then show False
    using j(1) by simp
qed

lemma ahead_less:
  assumes "0 < n" and "ahead n k r c"
  shows "c < n"
proof -
  obtain j where "c = (r + j) mod n"
    using assms(2) unfolding ahead_def by blast
  then show ?thesis
    using assms(1) by simp
qed

lemma card_ahead:
  assumes "k < n"
  shows "card {c. c < n \<and> ahead n k r c} = k"
proof -
  have "0 < n"
    using assms by simp
  then have "{c. c < n \<and> ahead n k r c} = {c. ahead n k r c}"
    using ahead_less [of n k r] by blast
  also have "\<dots> = (\<lambda>j. (r + j) mod n) ` {1..k}"
    unfolding ahead_def image_def ..
  finally have "{c. c < n \<and> ahead n k r c} = (\<lambda>j. (r + j) mod n) ` {1..k}" .
  moreover have "inj_on (\<lambda>j. (r + j) mod n) {1..k}"
  proof (rule inj_onI)
    fix j j'
    assume "j \<in> {1..k}" "j' \<in> {1..k}" "(r + j) mod n = (r + j') mod n"
    then show "j = j'"
      using assms by (intro add_mod_inj [of j n j' r]) simp_all
  qed
  ultimately show ?thesis
    by (simp add: card_image)
qed

lemma behind_back:
  fixes n :: nat
  assumes "c < n" and "j \<le> n"
  shows "((c + j) mod n + (n - j)) mod n = c"
proof -
  have "((c + j) mod n + (n - j)) mod n = (c + j + (n - j)) mod n"
    by (rule mod_add_left_eq)
  also have "c + j + (n - j) = c + n"
    using assms(2) by simp
  also have "(c + n) mod n = c"
    using assms(1) by simp
  finally show ?thesis .
qed

lemma behind_forth:
  fixes n :: nat
  assumes "r < n" and "j \<le> n"
  shows "((r + (n - j)) mod n + j) mod n = r"
proof -
  have "((r + (n - j)) mod n + j) mod n = (r + (n - j) + j) mod n"
    by (rule mod_add_left_eq)
  also have "r + (n - j) + j = r + n"
    using assms(2) by simp
  also have "(r + n) mod n = r"
    using assms(1) by simp
  finally show ?thesis .
qed

lemma card_behind:
  assumes "k < n" and "r < n"
  shows "card {c. c < n \<and> ahead n k c r} = k"
proof -
  have "{c. c < n \<and> ahead n k c r} = (\<lambda>j. (r + (n - j)) mod n) ` {1..k}"
  proof (intro set_eqI iffI)
    fix c
    assume "c \<in> {c. c < n \<and> ahead n k c r}"
    then have "c < n" "ahead n k c r"
      by simp_all
    then obtain j where j: "j \<in> {1..k}" "r = (c + j) mod n"
      unfolding ahead_def by blast
    have "j \<le> n"
      using j(1) assms(1) by simp
    with \<open>c < n\<close> have "((c + j) mod n + (n - j)) mod n = c"
      by (rule behind_back)
    then have "c = (r + (n - j)) mod n"
      unfolding j(2) [symmetric] by (rule HOL.sym)
    then show "c \<in> (\<lambda>j. (r + (n - j)) mod n) ` {1..k}"
      using j(1) by (rule image_eqI)
  next
    fix c
    assume "c \<in> (\<lambda>j. (r + (n - j)) mod n) ` {1..k}"
    then obtain j where j: "j \<in> {1..k}" "c = (r + (n - j)) mod n"
      by blast
    have "j \<le> n"
      using j(1) assms(1) by simp
    with assms(2) have "((r + (n - j)) mod n + j) mod n = r"
      by (rule behind_forth)
    then have "r = (c + j) mod n"
      unfolding j(2) [symmetric] by (rule HOL.sym)
    then have "ahead n k c r"
      unfolding ahead_def using j(1) by blast
    moreover have "0 < n"
      using assms(2) by simp
    then have "c < n"
      unfolding j(2) by (rule mod_less_divisor)
    ultimately show "c \<in> {c. c < n \<and> ahead n k c r}"
      by blast
  qed
  moreover have "inj_on (\<lambda>j. (r + (n - j)) mod n) {1..k}"
  proof (rule inj_onI)
    fix j j'
    assume jj: "j \<in> {1..k}" "j' \<in> {1..k}" "(r + (n - j)) mod n = (r + (n - j')) mod n"
    have "n - j < n" "n - j' < n"
      using jj(1,2) assms(1) by simp_all
    then have "n - j = n - j'"
      using jj(3) by (rule add_mod_inj)
    moreover have "j \<le> n" "j' \<le> n"
      using jj(1,2) assms(1) by simp_all
    ultimately show "j = j'"
      by linarith
  qed
  ultimately show ?thesis
    by (simp add: card_image)
qed


lemma length_filter_upt: "length (filter P [0..<n]) = card {c. c < n \<and> P c}"
proof -
  have "length (filter P [0..<n]) = card ({c. P c} \<inter> set [0..<n])"
    by (rule distinct_length_filter) simp
  also have "{c. P c} \<inter> set [0..<n] = {c. c < n \<and> P c}"
    by auto
  finally show ?thesis .
qed

lemma sum_indicator:
  "(\<Sum>c<n. if P c then 1 else (0::real)) = real (card {c. c < (n::nat) \<and> P c})"
proof -
  have "(\<Sum>c<n. if P c then 1 else (0::real)) =
          (\<Sum>c\<in>{..<n} \<inter> {c. P c}. 1) + (\<Sum>c\<in>{..<n} \<inter> - {c. P c}. 0)"
    by (rule sum.If_cases) simp
  also have "\<dots> = real (card ({..<n} \<inter> {c. P c}))"
    by simp
  also have "{..<n} \<inter> {c. P c} = {c. c < n \<and> P c}"
    by auto
  finally show ?thesis .
qed

section \<open>Parameter validation\<close>

text \<open>
  Claim C5: \<^verbatim>\<open>ring_lattice\<close> fails with \<open>InvalidParameter\<close> exactly when
  \<open>k > n - 1\<close>; the failure is the first statement of the function and carries no graph;
  when \<open>k \<le> n - 1\<close>, for a size \<open>n \<ge> 0\<close>, the call returns a graph on \<open>n\<close> vertices.
\<close>

theorem ring_lattice_invalid_iff:
  "(ring_lattice n k undirected = Inl InvalidParameter \<longleftrightarrow> n - 1 < k) \<and>
   (0 \<le> n \<and> k \<le> n - 1 \<longrightarrow>
      (\<exists>graph. ring_lattice n k undirected = Inr graph \<and> n_cols graph = nat n))"
proof -
  have "ring_lattice n k undirected = Inl InvalidParameter \<longleftrightarrow> n - 1 < k"
    by (simp add: ring_lattice_def Let_def)
  moreover have "\<exists>graph. ring_lattice n k undirected = Inr graph \<and> n_cols graph = nat n"
    if "k \<le> n - 1"
    using ring_lattice_vals [OF that, of undirected] by blast
  ultimately show ?thesis
    by blast
qed

theorem ring_lattice_invalid_iff_witness:
  "ring_lattice 6 2 False \<noteq> Inl InvalidParameter \<and> (0::int) \<le> 6 \<and> (2::int) \<le> 6 - 1 \<and>
   (\<exists>graph. ring_lattice 6 2 False = Inr graph \<and> n_cols graph = 6) \<and>
   (3::int) - 1 < 3 \<and> ring_lattice 3 3 True = Inl InvalidParameter"
  using ring_lattice_invalid_iff [of 6 2 False] ring_lattice_invalid_iff [of 3 3 True]
  by simp

section \<open>The shape of the ring lattice\<close>

text \<open>
  Claim C6: for \<open>n \<ge> 1\<close> and \<open>0 \<le> k \<le> n - 1\<close>, the directed ring lattice has weight 1 at
  the entries \<open>(i, (i + j) mod n)\<close> with \<open>1 \<le> j \<le> k\<close> and weight 0 elsewhere; every row
  has exactly \<open>k\<close> non-zero entries and the matrix has \<open>n * k\<close> of them.
\<close>

theorem ring_lattice_directed:
  assumes "1 \<le> n" and "0 \<le> k" and "k \<le> n - 1"
  shows "\<exists>graph. ring_lattice n k False = Inr graph \<and> n_cols graph = nat n \<and>
           (\<forall>i<nat n. \<forall>l<nat n. vals graph i l =
              (if \<exists>j. 1 \<le> j \<and> j \<le> nat k \<and> l = (i + j) mod nat n then 1 else 0)) \<and>
           (\<forall>i<nat n. out_degree graph i = nat k) \<and>
           non_zero_entries graph = nat n * nat k"
proof -
  have h: "half_degree k False = nat k"
    by (simp add: half_degree_def)
  obtain graph where graph: "ring_lattice n k False = Inr graph" "n_cols graph = nat n"
    and entries: "\<And>r c. r < nat n \<Longrightarrow> c < nat n \<Longrightarrow>
        vals graph r c = (if ahead (nat n) (nat k) r c then 1 else 0)"
    using ring_lattice_vals [OF assms(3), of False] unfolding h by auto
  have k: "nat k < nat n"
    using assms by simp
  have ahead: "ahead (nat n) (nat k) i l = (\<exists>j. 1 \<le> j \<and> j \<le> nat k \<and> l = (i + j) mod nat n)" for i l
    unfolding ahead_def by auto
  have degree: "out_degree graph i = nat k" if "i < nat n" for i
  proof -
    have "{c. c < nat n \<and> vals graph i c \<noteq> 0} = {c. c < nat n \<and> ahead (nat n) (nat k) i c}"
      using entries [OF that] by (auto split: if_splits)
    then show ?thesis
      using card_ahead [OF k, of i] by (simp add: out_degree_def graph(2) length_filter_upt)
  qed
  have "map (out_degree graph) [0..<nat n] = map (\<lambda>i. nat k) [0..<nat n]"
    using degree by simp
  then have "non_zero_entries graph = nat n * nat k"
    unfolding non_zero_entries_def graph(2) by (simp add: sum_list_replicate map_replicate_const)
  then show ?thesis
    using graph entries degree ahead by auto
qed

theorem ring_lattice_directed_witness:
  "(1::int) \<le> 6 \<and> (0::int) \<le> 2 \<and> (2::int) \<le> 6 - 1 \<and>
   (\<exists>graph. ring_lattice 6 2 False = Inr graph \<and> n_cols graph = 6 \<and>
      vals graph 0 1 = 1 \<and> vals graph 0 2 = 1 \<and> vals graph 5 1 = 1 \<and> vals graph 0 3 = 0 \<and>
      out_degree graph 3 = 2 \<and> non_zero_entries graph = 12)"
proof -
  obtain graph where graph: "ring_lattice 6 2 False = Inr graph" "n_cols graph = 6"
    and entries: "\<forall>i<6. \<forall>l<6. vals graph i l =
              (if \<exists>j. 1 \<le> j \<and> j \<le> 2 \<and> l = (i + j) mod 6 then 1 else 0)"
    and degree: "\<forall>i<6. out_degree graph i = 2" "non_zero_entries graph = 12"
    using ring_lattice_directed [of 6 2] by auto
  have "vals graph 0 1 = 1"
    using entries by (simp add: exI [of _ 1])
  moreover have "vals graph 0 2 = 1"
    using entries by (simp add: exI [of _ 2])
  moreover have "vals graph 5 1 = 1"
    using entries by (simp add: exI [of _ 2])
  moreover have "\<not> (\<exists>j::nat. 1 \<le> j \<and> j \<le> 2 \<and> 3 = (0 + j) mod 6)"
    by auto
  then have "vals graph 0 3 = 0"
    using entries by simp
  ultimately show ?thesis
    using graph degree by auto
qed

text \<open>
  Claim C7: for \<open>1 < k \<le> n - 1\<close>, the undirected ring lattice is a symmetric matrix,
  and every vertex has degree \<open>2 * (k div 2)\<close>, both as the sum of its row and as the
  number of its neighbours.
\<close>

theorem ring_lattice_undirected:
  assumes "1 < k" and "k \<le> n - 1"
  shows "\<exists>graph. ring_lattice n k True = Inr graph \<and> n_cols graph = nat n \<and> symmetric graph \<and>
           (\<forall>i<nat n. row_total graph i = real_of_int (2 * (k div 2)) \<and>
                       out_degree graph i = nat (2 * (k div 2)))"
proof -
  define h where "h = nat (k div 2)"
  have half: "half_degree k True = h"
    using assms(1) by (simp add: half_degree_def h_def)
  obtain graph where graph: "ring_lattice n k True = Inr graph" "n_cols graph = nat n"
    and entries: "\<And>r c. r < nat n \<Longrightarrow> c < nat n \<Longrightarrow>
        vals graph r c = (if ahead (nat n) h r c then 1 else 0) + (if ahead (nat n) h c r then 1 else 0)"
    using ring_lattice_vals [OF assms(2), of True] unfolding half by auto
  have hh: "h + h < nat n"
    using assms unfolding h_def by linarith
  then have h: "h < nat n"
    by simp
  have twice: "real_of_int (2 * (k div 2)) = real (h + h)" "nat (2 * (k div 2)) = h + h"
    using assms(1) unfolding h_def by simp_all
  have "symmetric graph"
    unfolding symmetric_def using entries by (simp add: graph(2))
  moreover have "row_total graph i = real (h + h) \<and> out_degree graph i = h + h" if i: "i < nat n" for i
  proof -
    let ?A = "{c. c < nat n \<and> ahead (nat n) h i c}"
    let ?B = "{c. c < nat n \<and> ahead (nat n) h c i}"
    have cards: "card ?A = h" "card ?B = h"
      using card_ahead [OF h, of i] card_behind [OF h i] by simp_all
    have "row_total graph i = (\<Sum>c<nat n. vals graph i c)"
      by (simp add: row_total_def graph(2) interv_sum_list_conv_sum_set_nat atLeast0LessThan)
    also have "\<dots> = (\<Sum>c<nat n. (if ahead (nat n) h i c then 1 else 0) +
                                (if ahead (nat n) h c i then 1 else 0))"
      using entries [OF i] by (intro sum.cong) simp_all
    also have "\<dots> = real (card ?A) + real (card ?B)"
      by (simp only: sum.distrib sum_indicator)
    finally have total: "row_total graph i = real (h + h)"
      using cards by simp
    have "{c. c < nat n \<and> vals graph i c \<noteq> 0} = ?A \<union> ?B"
      using entries [OF i] by (auto split: if_splits)
    moreover have "?A \<inter> ?B = {}"
      using not_ahead_both [OF hh] by blast
    moreover have "finite ?A" "finite ?B"
      by simp_all
    ultimately have "card {c. c < nat n \<and> vals graph i c \<noteq> 0} = h + h"
      using cards by (simp add: card_Un_disjoint)
    then have "out_degree graph i = h + h"
      by (simp add: out_degree_def graph(2) length_filter_upt)
    with total show ?thesis
      by simp
  qed
  ultimately show ?thesis
    using graph twice by auto
qed

theorem ring_lattice_undirected_witness:
  "(1::int) < 3 \<and> (3::int) \<le> 6 - 1 \<and>
   (\<exists>graph. ring_lattice 6 3 True = Inr graph \<and> n_cols graph = 6 \<and> symmetric graph \<and>
      row_total graph 4 = 2 \<and> out_degree graph 4 = 2)"
proof -
  have "real_of_int (2 * (3 div 2)) = 2" "nat (2 * (3 div 2)) = 2"
    by simp_all
  then show ?thesis
    using ring_lattice_undirected [of 3 6] by auto
qed

text \<open>
  Claim C10: for \<open>n \<ge> 1\<close> and \<open>0 \<le> k \<le> n - 1\<close>, directed or not, the ring lattice has
  weight 0 at every diagonal entry.
\<close>

theorem ring_lattice_zero_diagonal:
  assumes "1 \<le> n" and "0 \<le> k" and "k \<le> n - 1"
  shows "\<exists>graph. ring_lattice n k undirected = Inr graph \<and> n_cols graph = nat n \<and>
           zero_diagonal graph"
proof -
  obtain graph where graph: "ring_lattice n k undirected = Inr graph" "n_cols graph = nat n"
    and entries: "\<And>r c. r < nat n \<Longrightarrow> c < nat n \<Longrightarrow>
        vals graph r c = (if ahead (nat n) (half_degree k undirected) r c then 1 else 0) +
          (if undirected \<and> ahead (nat n) (half_degree k undirected) c r then 1 else 0)"
    using ring_lattice_vals [OF assms(3), of undirected] by auto
  have "half_degree k undirected < nat n"
    using assms by (intro half_degree_less) simp_all
  then have "\<not> ahead (nat n) (half_degree k undirected) r r" for r
    by (rule not_ahead_self)
  then have "zero_diagonal graph"
    unfolding zero_diagonal_def using entries by (simp add: graph(2))
  then show ?thesis
    using graph by blast
qed

theorem ring_lattice_zero_diagonal_witness:
  "(1::int) \<le> 6 \<and> (0::int) \<le> 5 \<and> (5::int) \<le> 6 - 1 \<and>
   (\<exists>graph. ring_lattice 6 5 True = Inr graph \<and> n_cols graph = 6 \<and> zero_diagonal graph)"
  using ring_lattice_zero_diagonal [of 6 5 True] by simp

section \<open>Conservation of the total weight\<close>

text \<open>
  Claim C1: the sum of the entries is the same before and after
  \<^verbatim>\<open>rewire_graph_cpp\<close>. The code breaks it on an undirected graph with an entry on
  its diagonal: the mirror of such an entry is the entry itself, so its weight is taken off
  once and added twice, where the weight of an entry off the diagonal is taken off twice
  and added twice. On the symmetric graph on 2 vertices whose only entry is \<open>(1,1)\<close>, of
  weight 1, with self-loops and multiple edges allowed, \<open>p = 1\<close> and every draw equal to
  1/4, the total weight is 1 before and 2 after.
\<close>

theorem rewire_total_diagonal_entry:
  "vals (single_edge 2 1 1) 0 1 = vals (single_edge 2 1 1) 1 0 \<and>
   total (single_edge 2 1 1) = 1 \<and>
   total (rewire_graph_cpp (single_edge 2 1 1) 1 False True True True quarter_rng) = 2"
  by code_simp

section \<open>The range of the new ends\<close>

text \<open>
  Claim C2 says that each new end is drawn among all the vertices \<open>0, ..., n-1\<close>. The code
  computes \<^verbatim>\<open>floor((n-1)*unif_rand())\<close> with a draw below 1, so that for
  \<open>n \<ge> 2\<close> the vertex \<open>n-1\<close> is never drawn, neither for \<open>newj\<close> nor as the result of
  the search for \<open>newk\<close>.
\<close>

theorem new_end_never_last_vertex:
  assumes "2 \<le> n_cols newgraph"
  shows "draw_vertex (n_cols newgraph) u \<noteq> n_cols newgraph - 1 \<and>
         fst (find_newk rng newgraph self multiple undirected newj picked wcount pos) \<noteq>
           n_cols newgraph - 1"
proof -
  obtain newk conditions wcount' pos'
    where search: "find_newk rng newgraph self multiple undirected newj picked wcount pos =
                     (newk, conditions, wcount', pos')"
    by (cases "find_newk rng newgraph self multiple undirected newj picked wcount pos") blast
  have "newk = draw_vertex (n_cols newgraph) (rng (pos' - 1))"
    using find_newk_last_draw [OF search] by simp
  then show ?thesis
    using draw_vertex_less [OF assms] search by (simp add: less_imp_neq)
qed

theorem new_end_never_last_vertex_witness:
  "(2::nat) \<le> n_cols (single_edge 2 0 1) \<and>
   draw_vertex (n_cols (single_edge 2 0 1)) half_draw \<noteq> 1 \<and>
   fst (find_newk half_rng (single_edge 2 0 1) True True False 0 {} 0 0) \<noteq> 1"
proof -
  have n: "n_cols (single_edge 2 0 1) = 2"
    by code_simp
  then have "2 \<le> n_cols (single_edge 2 0 1)"
    by simp
  then show ?thesis
    using new_end_never_last_vertex [of "single_edge 2 0 1" half_draw half_rng True True False 0 "{}" 0 0] n
    by simp
qed

section \<open>Self-loops\<close>

text \<open>
  Claim C3: with \<open>self = False\<close> the rewired graph has no entry on its diagonal. The
  code breaks it when a search is left at the repeat limit: the last value drawn is used
  although the test for self edges rejected it. On the undirected ring lattice on 14
  vertices with \<open>k = 2\<close>, which has no entry on its diagonal, with \<open>p = 1\<close>, one end
  rewired, multiple edges not allowed and every draw equal to 1/10, the rewired graph
  has weight 2 at \<open>(1,1)\<close>. On the directed graph on 3 vertices whose only entry is
  \<open>(0,1)\<close>, with every draw equal to 1/4, the rewired graph has weight 1 at \<open>(0,0)\<close>.
\<close>

theorem rewire_self_loop_created:
  "map (\<lambda>r. vals lattice14 r r) [0..<14] = replicate 14 0 \<and>
   vals (rewire_graph_cpp lattice14 1 False False False True tenth_rng) 1 1 = 2 \<and>
   map (\<lambda>r. vals (single_edge 3 0 1) r r) [0..<3] = replicate 3 0 \<and>
   vals (rewire_graph_cpp (single_edge 3 0 1) 1 False False False False quarter_rng) 0 0 = 1"
  by code_simp

section \<open>Rewiring with probability zero\<close>

text \<open>
  Claim C4: with \<open>p = 0\<close> the graph returned is the input graph, for every graph, every
  setting of the flags and every sequence of draws: each draw is greater than 0, so every
  entry is kept.
\<close>

theorem rewire_p_zero_identity:
  "rewire_graph_cpp graph 0 both_ends self multiple undirected rng = graph"
  by (simp add: rewire_graph_cpp_def rewire_run_def fold_rewire_never u01_range)

theorem rewire_p_zero_identity_witness:
  "rewire_graph_cpp lattice14 0 False False False True tenth_rng = lattice14"
  using rewire_p_zero_identity [of lattice14 False False False True tenth_rng] by simp

section \<open>The repeat limit of the search\<close>

text \<open>
  The search on a graph of 46341 vertices, for the new end of the edge \<open>(11585,5)\<close>, with
  every draw equal to 1/4: each draw gives the vertex 11585.
\<close>

lemma draw_vertex_46341: "draw_vertex 46341 quarter_draw = 11585"
  by (simp add: draw_vertex_def quarter_draw.rep_eq)

lemma n_cols_single_edge [simp]: "n_cols (single_edge n r c) = n"
  by (simp add: single_edge_def zeros_def)

lemma int_times_46341: "int_times 46341 46341 = - 2147479015"
  by (simp add: int_times_def)

lemma find_newk_46341_first:
  "find_newk quarter_rng (single_edge 46341 11585 5) False False False 11585 {} 0 (Suc 0) =
   find_newk quarter_rng (single_edge 46341 11585 5) False False False 11585 {11585} 0 (Suc (Suc 0))"
  by (subst find_newk.simps) (simp add: Let_def draw_vertex_46341 quarter_rng_def)

lemma find_newk_46341_second:
  "find_newk quarter_rng (single_edge 46341 11585 5) False False False 11585 {11585} 0 (Suc (Suc 0)) =
   (11585, True, 1, 3)"
  by (subst find_newk.simps)
    (simp add: Let_def draw_vertex_46341 int_times_46341 quarter_rng_def numeral_3_eq_3)

lemma rewire_iter_46341:
  "rewire_iter quarter_rng 1 False False False False (11585, 5) (single_edge 46341 11585 5, 0) =
   (move_weight False 11585 5 11585 11585 (single_edge 46341 11585 5), 3)"
  by (simp add: rewire_iter_def find_newk_46341_first find_newk_46341_second quarter_rng_def
      quarter_draw.rep_eq)

lemma move_weight_46341:
  "vals (move_weight False 11585 5 11585 11585 (single_edge 46341 11585 5)) 11585 5 = 0"
  "vals (move_weight False 11585 5 11585 11585 (single_edge 46341 11585 5)) 11585 11585 = 1"
  by (simp_all add: move_weight_def Let_def single_edge_def zeros_def vals_at_add vals_at_set)

text \<open>
  Claim C8: the search for the new end terminates, and it ends on the first admissible
  value or once the repeat counter reaches \<open>n\<^sup>2\<close>, the edge being then rewired to the last
  value drawn. The code compares the counter with the \<^verbatim>\<open>int\<close> product
  \<^verbatim>\<open>n*n\<close>, which overflows from \<open>n = 46341\<close> on. On a graph of 46341 vertices the
  product is negative: the search is left at the first repeat, after two draws, with the
  counter at 1 and not at \<open>46341\<^sup>2\<close>; the entry \<open>(11585,5)\<close> is cleared and its weight
  is put on the diagonal, at \<open>(11585,11585)\<close>.
\<close>

theorem find_newk_int_overflow:
  "int_times 46341 46341 = - 2147479015 \<and>
   find_newk quarter_rng (single_edge 46341 11585 5) False False False 11585 {} 0 1 =
     (11585, True, 1, 3) \<and>
   snd (rewire_iter quarter_rng 1 False False False False (11585, 5) (single_edge 46341 11585 5, 0)) = 3 \<and>
   vals (fst (rewire_iter quarter_rng 1 False False False False (11585, 5) (single_edge 46341 11585 5, 0)))
     11585 5 = 0 \<and>
   vals (fst (rewire_iter quarter_rng 1 False False False False (11585, 5) (single_edge 46341 11585 5, 0)))
     11585 11585 = 1"
  by (simp add: int_times_46341 find_newk_46341_first find_newk_46341_second rewire_iter_46341
      move_weight_46341)

section \<open>The draw and the skip of the mirror entries\<close>

text \<open>
  Claim C9 says that, in an undirected graph, an entry with \<open>row < col\<close> is skipped
  before any random number is drawn for it. The code draws the number compared with \<open>p\<close>
  first: on the graph whose only entry is \<open>(0,1)\<close>, the run makes one draw.
\<close>

theorem rewire_skip_counterexample:
  "sparse_indexes (single_edge 2 0 1) = [(0, 1)] \<and>
   snd (rewire_run (single_edge 2 0 1) 1 False False False True quarter_rng) = 1"
  by code_simp

text \<open>
  Claim C9, amended: in an undirected graph, the number compared with \<open>p\<close> is drawn for
  every entry, before the test \<open>row < col\<close>; an entry with \<open>row < col\<close> leaves the
  working copy unchanged and consumes exactly this one draw, so that a graph all of whose
  entries are above the diagonal is returned unchanged after as many draws as it has
  entries.
\<close>

theorem rewire_skip_after_draw:
  "(j < k \<longrightarrow>
      rewire_iter rng p both_ends self multiple True (j, k) (newgraph, pos) = (newgraph, Suc pos)) \<and>
   ((\<forall>(r, c)\<in>set (sparse_indexes graph). r < c) \<longrightarrow>
      rewire_run graph p both_ends self multiple True rng = (graph, length (sparse_indexes graph)))"
  by (simp add: rewire_iter_kept rewire_run_def fold_rewire_skipped)

theorem rewire_skip_after_draw_witness:
  "(0::nat) < 1 \<and>
   rewire_iter quarter_rng 1 False False False True (0, 1) (single_edge 2 0 1, 0) = (single_edge 2 0 1, Suc 0) \<and>
   sparse_indexes (single_edge 2 0 1) = [(0, 1)] \<and>
   rewire_run (single_edge 2 0 1) 1 False False False True quarter_rng = (single_edge 2 0 1, 1)"
proof -
  have idx: "sparse_indexes (single_edge 2 0 1) = [(0, 1)]"
    by code_simp
  then have "\<forall>(r, c)\<in>set (sparse_indexes (single_edge 2 0 1)). r < c"
    by simp
  then show ?thesis
    using rewire_skip_after_draw [of 0 1 quarter_rng 1 False False False "single_edge 2 0 1" 0 "single_edge 2 0 1"] idx
    by simp
qed

end
